theory Spec2Isabelle
  imports Main "HOL-Library.Word"
begin

section \<open>The memtable of \<open>program.c\<close>\<close>

text \<open>
  The program keeps a fixed-capacity array of key-value entries behind one pthread
  read-write lock. The model below follows \<open>lsm_init\<close>, \<open>lsm_add\<close> and \<open>lsm_get\<close>
  statement by statement, for one call running from its lock acquisition to its unlock.

  \<^item> A C \<open>int\<close> is a 32-bit word, read as two's complement by \<open>sint\<close>.
  \<^item> The array behind the pointer \<open>memtable\<close> is the list of the slots that were
    allocated; an access outside of it is undefined behaviour in C and the fault
    \<open>OutOfBounds\<close> here.
  \<^item> A loop index starts at 0 and is only incremented while it is below an \<open>int\<close>, so it
    cannot overflow; it is a \<open>nat\<close>, compared through \<open>int\<close>.
  \<^item> What a call prints is returned as a list of \<open>fprintf\<close> events: the stream, the format
    string and the arguments, in the order of the calls.
\<close>

subsection \<open>Data\<close>

type_synonym c_int = "32 word"

record Entry =
  key :: c_int
  "value" :: c_int
  in_use :: c_int

text \<open>
  The state of a \<open>pthread_rwlock_t\<close> as one thread running alone sees it: free, held
  shared (\<open>RdLocked n\<close>: by \<open>n + 1\<close> readers), or held exclusively by a writer.
\<close>

datatype rwlock_t = Unlocked | RdLocked nat | WrLocked

record LSMTree =
  memtable :: "Entry list"
  memtable_max :: c_int
  memtable_count :: c_int
  rwlock :: rwlock_t

text \<open>
  How a call can fail to return normally: \<open>exit(EXIT_FAILURE)\<close> after a failed
  allocation, an array access outside the allocated block, a lock acquisition that waits
  (for ever, when no other thread runs), and unlocking a lock that is not held.
\<close>

datatype fault = AllocFailed | OutOfBounds | Blocked | NotLocked

datatype stream = Stdout | Stderr

datatype event = Fprintf stream string "c_int list"

subsection \<open>The lock primitives\<close>

fun pthread_rwlock_wrlock :: "rwlock_t \<Rightarrow> fault + rwlock_t" where
  "pthread_rwlock_wrlock Unlocked = Inr WrLocked"
| "pthread_rwlock_wrlock (RdLocked n) = Inl Blocked"
| "pthread_rwlock_wrlock WrLocked = Inl Blocked"

fun pthread_rwlock_rdlock :: "rwlock_t \<Rightarrow> fault + rwlock_t" where
  "pthread_rwlock_rdlock Unlocked = Inr (RdLocked 0)"
| "pthread_rwlock_rdlock (RdLocked n) = Inr (RdLocked (Suc n))"
| "pthread_rwlock_rdlock WrLocked = Inl Blocked"

fun pthread_rwlock_unlock :: "rwlock_t \<Rightarrow> fault + rwlock_t" where
  "pthread_rwlock_unlock Unlocked = Inl NotLocked"
| "pthread_rwlock_unlock (RdLocked 0) = Inr Unlocked"
| "pthread_rwlock_unlock (RdLocked (Suc n)) = Inr (RdLocked n)"
| "pthread_rwlock_unlock WrLocked = Inr Unlocked"

subsection \<open>\<open>lsm_init\<close>\<close>

text \<open>
  The loop \<open>for (i = 0; i < max_entries; ++i) memtable[i].in_use = 0\<close>, from index \<open>i\<close> on.
\<close>

function lsm_init_loop :: "c_int \<Rightarrow> nat \<Rightarrow> Entry list \<Rightarrow> fault + Entry list" where
  "lsm_init_loop max_entries i mem =
     (if int i < sint max_entries then
        (if i < length mem
         then lsm_init_loop max_entries (Suc i) (mem[i := (mem ! i)\<lparr>in_use := 0\<rparr>])
         else Inl OutOfBounds)
      else Inr mem)"
  by pat_completeness auto
termination
  by (relation "measure (\<lambda>(m, i, mem). nat (sint m) - i)") auto

declare lsm_init_loop.simps [simp del]

text \<open>
  \<open>malloc\<close> is the environment's: its outcome is an argument, \<open>None\<close> for \<open>NULL\<close> and
  \<open>Some block\<close> for a fresh block with the contents it happens to have (\<open>malloc\<close> does not
  clear it). Every field of \<open>*tree\<close> is overwritten.
\<close>

definition lsm_init :: "LSMTree \<Rightarrow> Entry list option \<Rightarrow> c_int \<Rightarrow> fault + LSMTree" where
  "lsm_init tree malloc_result max_entries =
     (let tree1 = tree\<lparr>memtable_max := max_entries, memtable_count := 0\<rparr> in
      case malloc_result of
        None \<Rightarrow> Inl AllocFailed
      | Some block \<Rightarrow>
          (case lsm_init_loop max_entries 0 block of
             Inl f \<Rightarrow> Inl f
           | Inr mem \<Rightarrow> Inr (tree1\<lparr>memtable := mem, rwlock := Unlocked\<rparr>)))"

subsection \<open>\<open>lsm_add\<close>\<close>

text \<open>
  The scan of \<open>lsm_add\<close>, from index \<open>i\<close> on. It returns the tree and the flag
  \<open>updated\<close>; the \<open>break\<close> is the branch that does not recurse.
\<close>

function lsm_add_loop :: "LSMTree \<Rightarrow> c_int \<Rightarrow> c_int \<Rightarrow> nat \<Rightarrow> fault + (LSMTree \<times> c_int)" where
  "lsm_add_loop tree k v i =
     (if int i < sint (memtable_count tree) then
        (if i < length (memtable tree) then
           (if in_use (memtable tree ! i) \<noteq> 0 \<and> key (memtable tree ! i) = k
            then Inr (tree\<lparr>memtable := (memtable tree)[i := (memtable tree ! i)\<lparr>value := v\<rparr>]\<rparr>, 1)
            else lsm_add_loop tree k v (Suc i))
         else Inl OutOfBounds)
      else Inr (tree, 0))"
  by pat_completeness auto
termination
  by (relation "measure (\<lambda>(t, k, v, i). nat (sint (memtable_count t)) - i)") auto

declare lsm_add_loop.simps [simp del]

text \<open>The block under \<open>if (!updated)\<close>: append at index \<open>memtable_count\<close>, or report.\<close>

definition lsm_add_new :: "LSMTree \<Rightarrow> c_int \<Rightarrow> c_int \<Rightarrow> fault + (LSMTree \<times> event list)" where
  "lsm_add_new tree k v =
     (if sint (memtable_count tree) < sint (memtable_max tree) then
        (if 0 \<le> sint (memtable_count tree)
            \<and> nat (sint (memtable_count tree)) < length (memtable tree)
         then
           (let n = nat (sint (memtable_count tree));
                e = (memtable tree ! n)\<lparr>key := k, value := v, in_use := 1\<rparr>
            in Inr (tree\<lparr>memtable := (memtable tree)[n := e],
                         memtable_count := memtable_count tree + 1\<rparr>, []))
         else Inl OutOfBounds)
      else
        Inr (tree, [Fprintf Stderr
               ''Memtable full, cannot add key %d (would trigger flush)\<newline>'' [k]]))"

definition lsm_add :: "LSMTree \<Rightarrow> c_int \<Rightarrow> c_int \<Rightarrow> fault + (LSMTree \<times> event list)" where
  "lsm_add tree k v =
     (case pthread_rwlock_wrlock (rwlock tree) of
        Inl f \<Rightarrow> Inl f
      | Inr l \<Rightarrow>
          (case lsm_add_loop (tree\<lparr>rwlock := l\<rparr>) k v 0 of
             Inl f \<Rightarrow> Inl f
           | Inr (tree1, updated) \<Rightarrow>
               (case (if updated = 0 then lsm_add_new tree1 k v else Inr (tree1, [])) of
                  Inl f \<Rightarrow> Inl f
                | Inr (tree2, out) \<Rightarrow>
                    (case pthread_rwlock_unlock (rwlock tree2) of
                       Inl f \<Rightarrow> Inl f
                     | Inr l' \<Rightarrow>
                         Inr (tree2\<lparr>rwlock := l'\<rparr>,
                              out @ [Fprintf Stdout
                                       ''Writer: added key %d, value %d\<newline>'' [k, v]])))))"

text \<open>
  \<open>lsm_add\<close> is declared \<open>void\<close>: a call hands no value back. What its caller has when
  the call returns is the tree behind the pointer it passed; the lines the call printed
  went to the streams of the process.
\<close>

definition caller_receives :: "fault + (LSMTree \<times> event list) \<Rightarrow> fault + LSMTree" where
  "caller_receives r = (case r of Inl f \<Rightarrow> Inl f | Inr (t, out) \<Rightarrow> Inr t)"

text \<open>
  The critical section of \<open>lsm_add\<close>: what runs between \<open>pthread_rwlock_wrlock\<close> and
  \<open>pthread_rwlock_unlock\<close>. (That of \<open>lsm_get\<close> is its scan, \<open>lsm_get_loop\<close> from 0.)
\<close>

definition lsm_add_section :: "LSMTree \<Rightarrow> c_int \<Rightarrow> c_int \<Rightarrow> fault + (LSMTree \<times> event list)" where
  "lsm_add_section tree k v =
     (case lsm_add_loop tree k v 0 of
        Inl f \<Rightarrow> Inl f
      | Inr (tree1, updated) \<Rightarrow>
          (case (if updated = 0 then lsm_add_new tree1 k v else Inr (tree1, [])) of
             Inl f \<Rightarrow> Inl f
           | Inr (tree2, out) \<Rightarrow>
               Inr (tree2, out @ [Fprintf Stdout
                                    ''Writer: added key %d, value %d\<newline>'' [k, v]])))"

subsection \<open>\<open>lsm_get\<close>\<close>

text \<open>
  The scan of \<open>lsm_get\<close>, from index \<open>i\<close> on. \<open>out_value\<close> is what the caller's location
  holds; the result is the flag \<open>found\<close> and what the location holds afterwards.
\<close>

function lsm_get_loop :: "LSMTree \<Rightarrow> c_int \<Rightarrow> c_int \<Rightarrow> nat \<Rightarrow> fault + (c_int \<times> c_int)" where
  "lsm_get_loop tree k out_value i =
     (if int i < sint (memtable_count tree) then
        (if i < length (memtable tree) then
           (if in_use (memtable tree ! i) \<noteq> 0 \<and> key (memtable tree ! i) = k
            then Inr (1, value (memtable tree ! i))
            else lsm_get_loop tree k out_value (Suc i))
         else Inl OutOfBounds)
      else Inr (0, out_value))"
  by pat_completeness auto
termination
  by (relation "measure (\<lambda>(t, k, out, i). nat (sint (memtable_count t)) - i)") auto

declare lsm_get_loop.simps [simp del]

text \<open>The result is the tree after the call, the returned \<open>int\<close> and \<open>*out_value\<close>.\<close>

definition lsm_get :: "LSMTree \<Rightarrow> c_int \<Rightarrow> c_int \<Rightarrow> fault + (LSMTree \<times> c_int \<times> c_int)" where
  "lsm_get tree k out_value =
     (case pthread_rwlock_rdlock (rwlock tree) of
        Inl f \<Rightarrow> Inl f
      | Inr l \<Rightarrow>
          (case lsm_get_loop (tree\<lparr>rwlock := l\<rparr>) k out_value 0 of
             Inl f \<Rightarrow> Inl f
           | Inr (found, out') \<Rightarrow>
               (case pthread_rwlock_unlock l of
                  Inl f \<Rightarrow> Inl f
                | Inr l' \<Rightarrow> Inr (tree\<lparr>rwlock := l'\<rparr>, found, out'))))"

section \<open>The vocabulary of the specification\<close>

text \<open>
  An occupied entry with key \<open>k\<close>: the test \<open>in_use && key == k\<close> of both scans.
\<close>

definition occupied_with :: "c_int \<Rightarrow> Entry \<Rightarrow> bool" where
  "occupied_with k e = (in_use e \<noteq> 0 \<and> key e = k)"

text \<open>Some occupied entry among the first \<open>memtable_count\<close> entries has key \<open>k\<close>.\<close>

definition present :: "LSMTree \<Rightarrow> c_int \<Rightarrow> bool" where
  "present t k =
     (\<exists>e \<in> set (take (nat (sint (memtable_count t))) (memtable t)). occupied_with k e)"

text \<open>
  The lookup as the specification words it: the value of the first occupied entry with
  a matching key among the first \<open>memtable_count\<close> entries, in index order, or nothing.
\<close>

definition lookup_spec :: "LSMTree \<Rightarrow> c_int \<Rightarrow> c_int option" where
  "lookup_spec t k =
     map_option value
       (List.find (occupied_with k) (take (nat (sint (memtable_count t))) (memtable t)))"

text \<open>
  The invariant of the specification's data model: the count lies between 0 and the
  capacity, the slots below the count are occupied, the slots from the count on are not,
  and no two occupied slots hold the same key.
\<close>

definition table_invariant :: "LSMTree \<Rightarrow> bool" where
  "table_invariant t =
     (let n = nat (sint (memtable_count t)) in
        0 \<le> sint (memtable_count t) \<and> sint (memtable_count t) \<le> sint (memtable_max t) \<and>
        list_all (\<lambda>e. in_use e \<noteq> 0) (take n (memtable t)) \<and>
        list_all (\<lambda>e. in_use e = 0) (drop n (memtable t)) \<and>
        distinct (map key (filter (\<lambda>e. in_use e \<noteq> 0) (memtable t))))"

text \<open>The array has exactly \<open>memtable_max\<close> slots, as \<open>lsm_init\<close> asks of \<open>malloc\<close>.\<close>

definition allocated :: "LSMTree \<Rightarrow> bool" where
  "allocated t = (int (length (memtable t)) = sint (memtable_max t))"

text \<open>
  The states a program can be in between calls: \<open>lsm_init\<close> with a capacity that is not
  negative and a block of that many slots from \<open>malloc\<close>, then any calls of \<open>lsm_add\<close>
  and \<open>lsm_get\<close> that return, one after the other.
\<close>

inductive reachable :: "LSMTree \<Rightarrow> bool" where
  init: "0 \<le> sint cap \<Longrightarrow> length block = nat (sint cap) \<Longrightarrow>
         lsm_init t0 (Some block) cap = Inr t \<Longrightarrow> reachable t"
| add: "reachable t \<Longrightarrow> lsm_add t k v = Inr (t', out) \<Longrightarrow> reachable t'"
| get: "reachable t \<Longrightarrow> lsm_get t k out = Inr (t', r) \<Longrightarrow> reachable t'"

text \<open>A run of \<open>lsm_add\<close> calls, as a writer thread makes them; it stops at a fault.\<close>

fun lsm_add_all :: "LSMTree \<Rightarrow> (c_int \<times> c_int) list \<Rightarrow> fault + LSMTree" where
  "lsm_add_all t [] = Inr t"
| "lsm_add_all t ((k, v) # ops) =
     (case lsm_add t k v of Inl f \<Rightarrow> Inl f | Inr (t', out) \<Rightarrow> lsm_add_all t' ops)"

subsection \<open>Concrete states\<close>

text \<open>
  The global \<open>lsm\<close> before \<open>lsm_init\<close> (static storage is zeroed), a block of two slots
  as \<open>malloc\<close> may hand it out, and the table of capacity 2 after \<open>lsm_add(1, 10)\<close> and
  after \<open>lsm_add(2, 20)\<close>.
\<close>

definition lsm_zero :: LSMTree where
  "lsm_zero = \<lparr>memtable = [], memtable_max = 0, memtable_count = 0, rwlock = Unlocked\<rparr>"

definition example_block :: "Entry list" where
  "example_block = [\<lparr>key = 7, value = 9, in_use = 5\<rparr>, \<lparr>key = 7, value = 9, in_use = 1\<rparr>]"

definition example_empty :: LSMTree where
  "example_empty =
     \<lparr>memtable = [\<lparr>key = 7, value = 9, in_use = 0\<rparr>, \<lparr>key = 7, value = 9, in_use = 0\<rparr>],
      memtable_max = 2, memtable_count = 0, rwlock = Unlocked\<rparr>"

definition example_half :: LSMTree where
  "example_half =
     \<lparr>memtable = [\<lparr>key = 1, value = 10, in_use = 1\<rparr>, \<lparr>key = 7, value = 9, in_use = 0\<rparr>],
      memtable_max = 2, memtable_count = 1, rwlock = Unlocked\<rparr>"

definition example_full :: LSMTree where
  "example_full =
     \<lparr>memtable = [\<lparr>key = 1, value = 10, in_use = 1\<rparr>, \<lparr>key = 2, value = 20, in_use = 1\<rparr>],
      memtable_max = 2, memtable_count = 2, rwlock = Unlocked\<rparr>"

subsection \<open>Calls running side by side\<close>

text \<open>
  Several threads call \<open>lsm_add\<close> and \<open>lsm_get\<close> on the one shared tree. A thread is
  outside of any call, or inside the critical section of an \<open>lsm_add\<close> (with its key and
  value), or inside that of an \<open>lsm_get\<close> (with its key and what its output location
  holds). A configuration is the shared tree, whose field \<open>rwlock\<close> is the lock, and the
  phase of every thread.

  A step is one thread's lock acquisition or its unlock, made with the primitives above
  on the lock of the shared tree. A thread whose acquisition would wait takes no step.
  The critical section itself takes effect at the unlock; where inside the section it
  runs makes no difference to which sections overlap.
\<close>

datatype phase = Idle | InAdd c_int c_int | InGet c_int c_int



record conf =
  shared :: LSMTree
  threads :: "nat \<Rightarrow> phase"

inductive conc_step :: "conf \<Rightarrow> conf \<Rightarrow> bool" where
  add_lock:
    "threads c i = Idle \<Longrightarrow> pthread_rwlock_wrlock (rwlock (shared c)) = Inr l \<Longrightarrow>
     conc_step c (c\<lparr>shared := (shared c)\<lparr>rwlock := l\<rparr>, threads := (threads c)(i := InAdd k v)\<rparr>)"
| add_unlock:
    "threads c i = InAdd k v \<Longrightarrow> lsm_add_section (shared c) k v = Inr (t', out) \<Longrightarrow>
     pthread_rwlock_unlock (rwlock t') = Inr l \<Longrightarrow>
     conc_step c (c\<lparr>shared := t'\<lparr>rwlock := l\<rparr>, threads := (threads c)(i := Idle)\<rparr>)"
| get_lock:
    "threads c i = Idle \<Longrightarrow> pthread_rwlock_rdlock (rwlock (shared c)) = Inr l \<Longrightarrow>
     conc_step c (c\<lparr>shared := (shared c)\<lparr>rwlock := l\<rparr>,
                    threads := (threads c)(i := InGet k out_value)\<rparr>)"
| get_unlock:
    "threads c i = InGet k out_value \<Longrightarrow>
     lsm_get_loop (shared c) k out_value 0 = Inr (found, out') \<Longrightarrow>
     pthread_rwlock_unlock (rwlock (shared c)) = Inr l \<Longrightarrow>
     conc_step c (c\<lparr>shared := (shared c)\<lparr>rwlock := l\<rparr>, threads := (threads c)(i := Idle)\<rparr>)"






section \<open>The loops\<close>

lemma sint_succ:
  fixes c m :: c_int
  assumes "sint c < sint m"
  shows "sint (c + 1) = sint c + 1"
proof -
  have "sint m < 2 ^ 31" using sint_lt [of m] by simp
  moreover have "- (2 ^ 31) \<le> sint c" using sint_ge [of c] by simp
  ultimately have "signed_take_bit 31 (sint c + 1) = sint c + 1"
    using assms by (intro signed_take_bit_int_eq_self) auto
  then show ?thesis by (simp add: sint_word_add)
qed

lemma lsm_add_loop_miss:
  assumes "sint (memtable_count t) \<le> int (length (memtable t))"
    and "\<forall>j. i \<le> j \<and> int j < sint (memtable_count t) \<longrightarrow> \<not> occupied_with k (memtable t ! j)"
  shows "lsm_add_loop t k v i = Inr (t, 0)"
  using assms
proof (induction t k v i rule: lsm_add_loop.induct)
  case (1 tree k v i)
  show ?case
  proof (cases "int i < sint (memtable_count tree)")
    case True
    then have len: "i < length (memtable tree)" using "1.prems"(1) by linarith
    have no: "\<not> (in_use (memtable tree ! i) \<noteq> 0 \<and> key (memtable tree ! i) = k)"
      using "1.prems"(2) True by (auto simp: occupied_with_def)
    have "lsm_add_loop tree k v i = lsm_add_loop tree k v (Suc i)"
      using True len no by (subst lsm_add_loop.simps) auto
    also have "\<dots> = Inr (tree, 0)"
      using "1.IH" [OF True len no] "1.prems" by auto
    finally show ?thesis .
  next
    case False
    then show ?thesis by (subst lsm_add_loop.simps) simp
  qed
qed

lemma lsm_add_loop_hit:
  assumes "i \<le> j" "int j < sint (memtable_count t)" "j < length (memtable t)"
    and "occupied_with k (memtable t ! j)"
    and "\<forall>m. i \<le> m \<and> m < j \<longrightarrow> \<not> occupied_with k (memtable t ! m)"
  shows "lsm_add_loop t k v i =
           Inr (t\<lparr>memtable := (memtable t)[j := (memtable t ! j)\<lparr>value := v\<rparr>]\<rparr>, 1)"
  using assms
proof (induction t k v i rule: lsm_add_loop.induct)
  case (1 tree k v i)
  have cnt: "int i < sint (memtable_count tree)" and len: "i < length (memtable tree)"
    using "1.prems" by auto
  show ?case
  proof (cases "i = j")
    case True
    then show ?thesis using cnt len "1.prems"(4)
      by (subst lsm_add_loop.simps) (simp add: occupied_with_def)
  next
    case False
    then have lt: "i < j" using "1.prems"(1) by simp
    then have no: "\<not> (in_use (memtable tree ! i) \<noteq> 0 \<and> key (memtable tree ! i) = k)"
      using "1.prems"(5) by (auto simp: occupied_with_def)
    have "lsm_add_loop tree k v i = lsm_add_loop tree k v (Suc i)"
      using cnt len no by (subst lsm_add_loop.simps) auto
    also have "\<dots> =
            Inr (tree\<lparr>memtable := (memtable tree)[j := (memtable tree ! j)\<lparr>value := v\<rparr>]\<rparr>, 1)"
      using "1.IH" [OF cnt len no] "1.prems" lt by auto
    finally show ?thesis .
  qed
qed

lemma lsm_get_loop_miss:
  assumes "sint (memtable_count t) \<le> int (length (memtable t))"
    and "\<forall>j. i \<le> j \<and> int j < sint (memtable_count t) \<longrightarrow> \<not> occupied_with k (memtable t ! j)"
  shows "lsm_get_loop t k out i = Inr (0, out)"
  using assms
proof (induction t k out i rule: lsm_get_loop.induct)
  case (1 tree k out i)
  show ?case
  proof (cases "int i < sint (memtable_count tree)")
    case True
    then have len: "i < length (memtable tree)" using "1.prems"(1) by linarith
    have no: "\<not> (in_use (memtable tree ! i) \<noteq> 0 \<and> key (memtable tree ! i) = k)"
      using "1.prems"(2) True by (auto simp: occupied_with_def)
    have "lsm_get_loop tree k out i = lsm_get_loop tree k out (Suc i)"
      using True len no by (subst lsm_get_loop.simps) auto
    also have "\<dots> = Inr (0, out)"
      using "1.IH" [OF True len no] "1.prems" by auto
    finally show ?thesis .
  next
    case False
    then show ?thesis by (subst lsm_get_loop.simps) simp
  qed
qed

lemma lsm_get_loop_hit:
  assumes "i \<le> j" "int j < sint (memtable_count t)" "j < length (memtable t)"
    and "occupied_with k (memtable t ! j)"
    and "\<forall>m. i \<le> m \<and> m < j \<longrightarrow> \<not> occupied_with k (memtable t ! m)"
  shows "lsm_get_loop t k out i = Inr (1, value (memtable t ! j))"
  using assms
proof (induction t k out i rule: lsm_get_loop.induct)
  case (1 tree k out i)
  have cnt: "int i < sint (memtable_count tree)" and len: "i < length (memtable tree)"
    using "1.prems" by auto
  show ?case
  proof (cases "i = j")
    case True
    then show ?thesis using cnt len "1.prems"(4)
      by (subst lsm_get_loop.simps) (simp add: occupied_with_def)
  next
    case False
    then have lt: "i < j" using "1.prems"(1) by simp
    then have no: "\<not> (in_use (memtable tree ! i) \<noteq> 0 \<and> key (memtable tree ! i) = k)"
      using "1.prems"(5) by (auto simp: occupied_with_def)
    have "lsm_get_loop tree k out i = lsm_get_loop tree k out (Suc i)"
      using cnt len no by (subst lsm_get_loop.simps) auto
    also have "\<dots> = Inr (1, value (memtable tree ! j))"
      using "1.IH" [OF cnt len no] "1.prems" lt by auto
    finally show ?thesis .
  qed
qed

lemma lsm_init_loop_clears:
  assumes "int (length mem) = sint cap" "i \<le> length mem"
  shows "lsm_init_loop cap i mem = Inr (take i mem @ map (\<lambda>e. e\<lparr>in_use := 0\<rparr>) (drop i mem))"
  using assms
proof (induction cap i mem rule: lsm_init_loop.induct)
  case (1 cap i mem)
  show ?case
  proof (cases "int i < sint cap")
    case True
    then have len: "i < length mem" using "1.prems"(1) by linarith
    let ?mem = "mem[i := (mem ! i)\<lparr>in_use := 0\<rparr>]"
    have step: "lsm_init_loop cap (Suc i) ?mem =
        Inr (take (Suc i) ?mem @ map (\<lambda>e. e\<lparr>in_use := 0\<rparr>) (drop (Suc i) ?mem))"
      using "1.IH" [OF True len] "1.prems" len by auto
    have a: "take (Suc i) ?mem = take i mem @ [(mem ! i)\<lparr>in_use := 0\<rparr>]"
      using len by (simp add: take_Suc_conv_app_nth)
    have b: "drop (Suc i) ?mem = drop (Suc i) mem" by simp
    have c: "drop i mem = mem ! i # drop (Suc i) mem"
      using len by (simp add: Cons_nth_drop_Suc)
    have "lsm_init_loop cap i mem = lsm_init_loop cap (Suc i) ?mem"
      using True len by (subst lsm_init_loop.simps) simp
    then show ?thesis
      by (simp add: step a b c)
  next
    case False
    then have "length mem \<le> i" using "1.prems"(1) by linarith
    then show ?thesis using False by (subst lsm_init_loop.simps) simp
  qed
qed

section \<open>The calls\<close>

lemma first_match_exists:
  assumes "occupied_with k (es ! j0)"
  shows "\<exists>j\<le>j0. occupied_with k (es ! j) \<and> (\<forall>i<j. \<not> occupied_with k (es ! i))"
proof -
  define j where "j = (LEAST j. occupied_with k (es ! j))"
  have "occupied_with k (es ! j)" unfolding j_def using assms by (rule LeastI)
  moreover have "j \<le> j0" unfolding j_def using assms by (rule Least_le)
  moreover have "\<forall>i<j. \<not> occupied_with k (es ! i)"
    unfolding j_def using not_less_Least by blast
  ultimately show ?thesis by blast
qed

lemma lsm_add_update:
  assumes "rwlock t = Unlocked"
    and "j < length (memtable t)" and "int j < sint (memtable_count t)"
    and "occupied_with k (memtable t ! j)"
    and "\<forall>i<j. \<not> occupied_with k (memtable t ! i)"
  shows "lsm_add t k v =
           Inr (t\<lparr>memtable := (memtable t)[j := (memtable t ! j)\<lparr>value := v\<rparr>]\<rparr>,
                [Fprintf Stdout ''Writer: added key %d, value %d\<newline>'' [k, v]])"
proof -
  have "lsm_add_loop (t\<lparr>rwlock := WrLocked\<rparr>) k v 0 =
          Inr (t\<lparr>rwlock := WrLocked,
                 memtable := (memtable t)[j := (memtable t ! j)\<lparr>value := v\<rparr>]\<rparr>, 1)"
    using lsm_add_loop_hit [of 0 j "t\<lparr>rwlock := WrLocked\<rparr>" k v] assms by simp
  then show ?thesis using assms(1) by (simp add: lsm_add_def)
qed

lemma lsm_add_append:
  assumes "rwlock t = Unlocked"
    and "int (length (memtable t)) = sint (memtable_max t)"
    and "0 \<le> sint (memtable_count t)"
    and "sint (memtable_count t) < sint (memtable_max t)"
    and "\<forall>i. int i < sint (memtable_count t) \<longrightarrow> \<not> occupied_with k (memtable t ! i)"
  shows "lsm_add t k v =
           Inr (t\<lparr>memtable := (memtable t)
                     [nat (sint (memtable_count t)) :=
                        (memtable t ! nat (sint (memtable_count t)))
                          \<lparr>key := k, value := v, in_use := 1\<rparr>],
                   memtable_count := memtable_count t + 1\<rparr>,
                [Fprintf Stdout ''Writer: added key %d, value %d\<newline>'' [k, v]])"
proof -
  have "lsm_add_loop (t\<lparr>rwlock := WrLocked\<rparr>) k v 0 = Inr (t\<lparr>rwlock := WrLocked\<rparr>, 0)"
    using lsm_add_loop_miss [of "t\<lparr>rwlock := WrLocked\<rparr>" 0 k v] assms by simp
  moreover have "nat (sint (memtable_count t)) < length (memtable t)"
    using assms(2,3,4) by linarith
  ultimately show ?thesis using assms(1,3,4) by (simp add: lsm_add_def lsm_add_new_def Let_def)
qed

lemma lsm_add_reject:
  assumes "rwlock t = Unlocked"
    and "sint (memtable_count t) \<le> int (length (memtable t))"
    and "\<not> sint (memtable_count t) < sint (memtable_max t)"
    and "\<forall>i. int i < sint (memtable_count t) \<longrightarrow> \<not> occupied_with k (memtable t ! i)"
  shows "lsm_add t k v =
           Inr (t, [Fprintf Stderr
                      ''Memtable full, cannot add key %d (would trigger flush)\<newline>'' [k],
                    Fprintf Stdout ''Writer: added key %d, value %d\<newline>'' [k, v]])"
proof -
  have "lsm_add_loop (t\<lparr>rwlock := WrLocked\<rparr>) k v 0 = Inr (t\<lparr>rwlock := WrLocked\<rparr>, 0)"
    using lsm_add_loop_miss [of "t\<lparr>rwlock := WrLocked\<rparr>" 0 k v] assms by simp
  then show ?thesis using assms(1,3) by (simp add: lsm_add_def lsm_add_new_def)
qed

lemma rdlock_unlock:
  "l \<noteq> WrLocked \<Longrightarrow>
     \<exists>l'. pthread_rwlock_rdlock l = Inr l' \<and> pthread_rwlock_unlock l' = Inr l"
  by (cases l) auto

lemma lsm_get_hit:
  assumes "rwlock t \<noteq> WrLocked"
    and "j < length (memtable t)" and "int j < sint (memtable_count t)"
    and "occupied_with k (memtable t ! j)"
    and "\<forall>i<j. \<not> occupied_with k (memtable t ! i)"
  shows "lsm_get t k out = Inr (t, 1, value (memtable t ! j))"
proof -
  obtain l' where l': "pthread_rwlock_rdlock (rwlock t) = Inr l'"
      "pthread_rwlock_unlock l' = Inr (rwlock t)"
    using rdlock_unlock [OF assms(1)] by blast
  have "lsm_get_loop (t\<lparr>rwlock := l'\<rparr>) k out 0 = Inr (1, value (memtable t ! j))"
    using lsm_get_loop_hit [of 0 j "t\<lparr>rwlock := l'\<rparr>" k out] assms by simp
  then show ?thesis using l' by (simp add: lsm_get_def)
qed

lemma lsm_get_miss:
  assumes "rwlock t \<noteq> WrLocked"
    and "sint (memtable_count t) \<le> int (length (memtable t))"
    and "\<forall>i. int i < sint (memtable_count t) \<longrightarrow> \<not> occupied_with k (memtable t ! i)"
  shows "lsm_get t k out = Inr (t, 0, out)"
proof -
  obtain l' where l': "pthread_rwlock_rdlock (rwlock t) = Inr l'"
      "pthread_rwlock_unlock l' = Inr (rwlock t)"
    using rdlock_unlock [OF assms(1)] by blast
  have "lsm_get_loop (t\<lparr>rwlock := l'\<rparr>) k out 0 = Inr (0, out)"
    using lsm_get_loop_miss [of "t\<lparr>rwlock := l'\<rparr>" 0 k out] assms by simp
  then show ?thesis using l' by (simp add: lsm_get_def)
qed

lemma lsm_get_lookup:
  assumes "rwlock t \<noteq> WrLocked"
    and "sint (memtable_count t) \<le> int (length (memtable t))"
  shows "lsm_get t k out =
           Inr (t, case lookup_spec t k of None \<Rightarrow> (0, out) | Some v \<Rightarrow> (1, v))"
proof (cases "List.find (occupied_with k) (take (nat (sint (memtable_count t))) (memtable t))")
  case None
  have "\<not> occupied_with k (memtable t ! i)" if "int i < sint (memtable_count t)" for i
  proof -
    have i: "i < nat (sint (memtable_count t))" "i < length (memtable t)"
      using that assms(2) by linarith+
    then have "memtable t ! i \<in> set (take (nat (sint (memtable_count t))) (memtable t))"
      by (auto simp: in_set_conv_nth intro!: exI [of _ i])
    then show ?thesis using None by (simp add: find_None_iff)
  qed
  then have "\<forall>i. int i < sint (memtable_count t) \<longrightarrow> \<not> occupied_with k (memtable t ! i)"
    by blast
  then show ?thesis using None lsm_get_miss [OF assms] by (simp add: lookup_spec_def)
next
  case (Some e)
  then obtain j where j: "j < length (take (nat (sint (memtable_count t))) (memtable t))"
      "occupied_with k (take (nat (sint (memtable_count t))) (memtable t) ! j)"
      "e = take (nat (sint (memtable_count t))) (memtable t) ! j"
      "\<forall>i<j. \<not> occupied_with k (take (nat (sint (memtable_count t))) (memtable t) ! i)"
    unfolding find_Some_iff by blast
  have jn: "j < nat (sint (memtable_count t))" "j < length (memtable t)" using j(1) by simp_all
  have "lsm_get t k out = Inr (t, 1, value (memtable t ! j))"
  proof (rule lsm_get_hit [OF assms(1) jn(2)])
    show "int j < sint (memtable_count t)" using jn(1) by linarith
    show "occupied_with k (memtable t ! j)" using j(2) jn by simp
    show "\<forall>i<j. \<not> occupied_with k (memtable t ! i)" using j(4) jn by simp
  qed
  then show ?thesis using Some j(3) jn by (simp add: lookup_spec_def)
qed

section \<open>The invariant\<close>

lemma present_iff:
  "present t k \<longleftrightarrow>
     (\<exists>j<length (memtable t). int j < sint (memtable_count t) \<and> occupied_with k (memtable t ! j))"
proof
  assume "present t k"
  then obtain j where "j < length (take (nat (sint (memtable_count t))) (memtable t))"
      "occupied_with k (take (nat (sint (memtable_count t))) (memtable t) ! j)"
    unfolding present_def by (auto simp: in_set_conv_nth)
  then have "j < length (memtable t) \<and> int j < sint (memtable_count t)
               \<and> occupied_with k (memtable t ! j)"
    by auto
  then show "\<exists>j<length (memtable t). int j < sint (memtable_count t)
               \<and> occupied_with k (memtable t ! j)"
    by blast
next
  assume "\<exists>j<length (memtable t). int j < sint (memtable_count t)
            \<and> occupied_with k (memtable t ! j)"
  then obtain j where j: "j < length (memtable t)" "int j < sint (memtable_count t)"
      "occupied_with k (memtable t ! j)"
    by blast
  then have "j < length (take (nat (sint (memtable_count t))) (memtable t))" by simp
  moreover have "take (nat (sint (memtable_count t))) (memtable t) ! j = memtable t ! j"
    using j by simp
  ultimately have "memtable t ! j \<in> set (take (nat (sint (memtable_count t))) (memtable t))"
    by (metis nth_mem)
  then show "present t k"
    unfolding present_def using j(3) by blast
qed

lemma filter_take_drop:
  assumes "list_all P (take n xs)" "list_all (\<lambda>e. \<not> P e) (drop n xs)"
  shows "filter P xs = take n xs"
proof -
  have "filter P xs = filter P (take n xs) @ filter P (drop n xs)"
    by (metis append_take_drop_id filter_append)
  moreover have "filter P (take n xs) = take n xs"
    using assms(1) by (simp add: list_all_iff)
  moreover have "filter P (drop n xs) = []"
    using assms(2) by (simp add: list_all_iff)
  ultimately show ?thesis by simp
qed

lemma table_invariant_nth:
  assumes "sint (memtable_count t) \<le> int (length (memtable t))"
  shows "table_invariant t \<longleftrightarrow>
     0 \<le> sint (memtable_count t) \<and> sint (memtable_count t) \<le> sint (memtable_max t) \<and>
     (\<forall>i<length (memtable t). (in_use (memtable t ! i) \<noteq> 0) = (int i < sint (memtable_count t))) \<and>
     (\<forall>i j. int i < sint (memtable_count t) \<and> int j < sint (memtable_count t) \<and>
            key (memtable t ! i) = key (memtable t ! j) \<longrightarrow> i = j)"
  (is "?L \<longleftrightarrow> ?c0 \<and> ?c1 \<and> ?occ \<and> ?dist")
proof (cases "0 \<le> sint (memtable_count t)")
  case False
  then show ?thesis by (auto simp: table_invariant_def Let_def)
next
  case True
  define n where "n = nat (sint (memtable_count t))"
  define xs where "xs = memtable t"
  have n: "int n = sint (memtable_count t)" "n \<le> length xs"
    using True assms by (simp_all add: n_def xs_def)
  have lt: "int i < sint (memtable_count t) \<longleftrightarrow> i < n" for i using n(1) by linarith
  have A: "(list_all (\<lambda>e. in_use e \<noteq> 0) (take n xs) \<and> list_all (\<lambda>e. in_use e = 0) (drop n xs))
             \<longleftrightarrow> (\<forall>i<length xs. (in_use (xs ! i) \<noteq> 0) = (i < n))" (is "?A1 \<longleftrightarrow> ?A2")
  proof
    assume a: ?A1
    show ?A2
    proof (intro allI impI)
      fix i assume i: "i < length xs"
      show "(in_use (xs ! i) \<noteq> 0) = (i < n)"
      proof (cases "i < n")
        case True
        then have "in_use (take n xs ! i) \<noteq> 0" using a i by (simp add: list_all_length)
        then show ?thesis using True by simp
      next
        case False
        then have "i - n < length (drop n xs)" using i by simp
        then have "in_use (drop n xs ! (i - n)) = 0" using a by (simp add: list_all_length)
        then show ?thesis using False i by simp
      qed
    qed
  next
    assume a: ?A2
    have "list_all (\<lambda>e. in_use e \<noteq> 0) (take n xs)"
      using a n(2) by (simp add: list_all_length)
    moreover have "in_use (drop n xs ! i) = 0" if "i < length (drop n xs)" for i
    proof -
      have "n + i < length xs" "\<not> n + i < n" using that by simp_all
      then have "in_use (xs ! (n + i)) = 0" using a by blast
      then show ?thesis using n(2) by simp
    qed
    then have "list_all (\<lambda>e. in_use e = 0) (drop n xs)"
      unfolding list_all_length by blast
    ultimately show ?A1 by blast
  qed
  have B: "distinct (map key (filter (\<lambda>e. in_use e \<noteq> 0) xs))
             \<longleftrightarrow> (\<forall>i j. i < n \<and> j < n \<and> key (xs ! i) = key (xs ! j) \<longrightarrow> i = j)"
    if "\<forall>i<length xs. (in_use (xs ! i) \<noteq> 0) = (i < n)"
  proof -
    have "filter (\<lambda>e. in_use e \<noteq> 0) xs = take n xs"
      using that A by (intro filter_take_drop) simp_all
    then have "distinct (map key (filter (\<lambda>e. in_use e \<noteq> 0) xs))
                 \<longleftrightarrow> distinct (map key (take n xs))" by simp
    also have "\<dots> \<longleftrightarrow> (\<forall>i j. i < n \<and> j < n \<and> key (xs ! i) = key (xs ! j) \<longrightarrow> i = j)"
      using n(2) by (auto simp: distinct_conv_nth)
    finally show ?thesis .
  qed
  show ?thesis
    unfolding table_invariant_def Let_def n_def [symmetric] xs_def [symmetric] lt
    using True A B by auto
qed

lemma not_present_nth:
  "\<not> present t k \<Longrightarrow> sint (memtable_count t) \<le> int (length (memtable t)) \<Longrightarrow>
     \<forall>i. int i < sint (memtable_count t) \<longrightarrow> \<not> occupied_with k (memtable t ! i)"
  unfolding present_iff by (metis nat_int nat_less_iff not_less order_less_le_trans zless_nat_conj of_nat_less_iff)

lemma present_first:
  assumes "present t k"
  shows "\<exists>j<length (memtable t). int j < sint (memtable_count t) \<and>
           occupied_with k (memtable t ! j) \<and> (\<forall>i<j. \<not> occupied_with k (memtable t ! i))"
proof -
  obtain j0 where j0: "j0 < length (memtable t)" "int j0 < sint (memtable_count t)"
      "occupied_with k (memtable t ! j0)"
    using assms unfolding present_iff by blast
  obtain j where j: "j \<le> j0" "occupied_with k (memtable t ! j)"
      "\<forall>i<j. \<not> occupied_with k (memtable t ! i)"
    using first_match_exists [OF j0(3)] by blast
  have "j < length (memtable t)" "int j < sint (memtable_count t)" using j(1) j0 by auto
  then show ?thesis using j by blast
qed

lemma lsm_init_result:
  assumes "0 \<le> sint cap" "length block = nat (sint cap)"
  shows "lsm_init t0 (Some block) cap =
           Inr (t0\<lparr>memtable := map (\<lambda>e. e\<lparr>in_use := 0\<rparr>) block, memtable_max := cap,
                   memtable_count := 0, rwlock := Unlocked\<rparr>)"
proof -
  have "int (length block) = sint cap" using assms by simp
  then have "lsm_init_loop cap 0 block = Inr (map (\<lambda>e. e\<lparr>in_use := 0\<rparr>) block)"
    using lsm_init_loop_clears [of block cap 0] by simp
  then show ?thesis by (simp add: lsm_init_def)
qed

lemma lsm_init_invariant:
  assumes "0 \<le> sint cap" "length block = nat (sint cap)"
    and "lsm_init t0 (Some block) cap = Inr t"
  shows "table_invariant t \<and> allocated t \<and> rwlock t = Unlocked"
proof -
  have t: "t = t0\<lparr>memtable := map (\<lambda>e. e\<lparr>in_use := 0\<rparr>) block, memtable_max := cap,
                   memtable_count := 0, rwlock := Unlocked\<rparr>"
    using lsm_init_result [OF assms(1,2), of t0] assms(3) by simp
  have "filter (\<lambda>e. in_use e \<noteq> 0) (map (\<lambda>e. e\<lparr>in_use := 0\<rparr>) block) = []"
    by (simp add: filter_empty_conv)
  then have "table_invariant t"
    using assms(1) by (simp add: t table_invariant_def list_all_iff)
  moreover have "allocated t" using assms(1,2) by (simp add: t allocated_def)
  ultimately show ?thesis by (simp add: t)
qed

lemma update_preserves:
  assumes inv: "table_invariant t" and len: "sint (memtable_count t) \<le> int (length (memtable t))"
    and j: "j < length (memtable t)"
  shows "table_invariant (t\<lparr>memtable := (memtable t)[j := (memtable t ! j)\<lparr>value := v\<rparr>]\<rparr>)"
proof -
  let ?t = "t\<lparr>memtable := (memtable t)[j := (memtable t ! j)\<lparr>value := v\<rparr>]\<rparr>"
  have same: "in_use (memtable ?t ! i) = in_use (memtable t ! i)"
      "key (memtable ?t ! i) = key (memtable t ! i)" for i
    using j by (simp_all add: nth_list_update)
  have len': "sint (memtable_count ?t) \<le> int (length (memtable ?t))" using len by simp
  show ?thesis
    using inv unfolding table_invariant_nth [OF len] table_invariant_nth [OF len'] same
    by simp
qed

lemma append_preserves:
  assumes inv: "table_invariant t" and alloc: "allocated t"
    and lt: "sint (memtable_count t) < sint (memtable_max t)"
    and new: "\<not> present t k"
  shows "table_invariant
           (t\<lparr>memtable := (memtable t)
                 [nat (sint (memtable_count t)) :=
                    (memtable t ! nat (sint (memtable_count t)))
                      \<lparr>key := k, value := v, in_use := 1\<rparr>],
               memtable_count := memtable_count t + 1\<rparr>)"
    (is "table_invariant ?t")
proof -
  define n where "n = nat (sint (memtable_count t))"
  have len: "sint (memtable_count t) \<le> int (length (memtable t))"
    using alloc lt by (simp add: allocated_def)
  have I: "0 \<le> sint (memtable_count t)"
      "\<forall>i<length (memtable t). (in_use (memtable t ! i) \<noteq> 0) = (int i < sint (memtable_count t))"
      "\<forall>i j. int i < sint (memtable_count t) \<and> int j < sint (memtable_count t) \<and>
            key (memtable t ! i) = key (memtable t ! j) \<longrightarrow> i = j"
    using inv unfolding table_invariant_nth [OF len] by blast+
  have n: "int n = sint (memtable_count t)" "n < length (memtable t)"
    using I(1) alloc lt by (simp_all add: n_def allocated_def)
  have cnt: "sint (memtable_count ?t) = int n + 1"
    using sint_succ [OF lt] n(1) by simp
  have new': "\<forall>i<n. \<not> occupied_with k (memtable t ! i)"
    using not_present_nth [OF new len] n(1) by simp
  have occ: "\<forall>i<n. in_use (memtable t ! i) \<noteq> 0" using I(2) n by simp
  have keys: "\<forall>i<n. key (memtable t ! i) \<noteq> k"
    using new' occ by (simp add: occupied_with_def)
  have nth: "memtable ?t ! i =
      (if i = n then (memtable t ! n)\<lparr>key := k, value := v, in_use := 1\<rparr> else memtable t ! i)"
    if "i < length (memtable t)" for i
    using that by (simp add: n_def nth_list_update)
  have len': "sint (memtable_count ?t) \<le> int (length (memtable ?t))"
    using cnt n(2) by simp
  have c1: "sint (memtable_count ?t) \<le> sint (memtable_max ?t)"
    using cnt n(1) lt by simp
  have c2: "(in_use (memtable ?t ! i) \<noteq> 0) = (int i < sint (memtable_count ?t))"
    if "i < length (memtable ?t)" for i
  proof (cases "i = n")
    case True
    then show ?thesis using that nth [of i] cnt by simp
  next
    case False
    then have "(int i < int n) = (int i < int n + 1)" by linarith
    then show ?thesis using that False nth [of i] cnt I(2) n(1) by simp
  qed
  have c3: "i = j"
    if "int i < sint (memtable_count ?t)" "int j < sint (memtable_count ?t)"
      "key (memtable ?t ! i) = key (memtable ?t ! j)" for i j
  proof -
    have ij: "i \<le> n" "j \<le> n" using that(1,2) cnt by linarith+
    have at_n: "key (memtable ?t ! n) = k" using nth [OF n(2)] by simp
    have below: "key (memtable ?t ! m) = key (memtable t ! m) \<and> key (memtable t ! m) \<noteq> k"
      if "m < n" for m
      using that nth [of m] n(2) keys by simp
    consider "i = n" "j = n" | "i = n" "j < n" | "i < n" "j = n" | "i < n" "j < n"
      using ij by linarith
    then show ?thesis
    proof cases
      case 1
      then show ?thesis by simp
    next
      case 2
      then show ?thesis using that(3) at_n below [of j] by metis
    next
      case 3
      then show ?thesis using that(3) at_n below [of i] by metis
    next
      case 4
      then have "key (memtable t ! i) = key (memtable t ! j)"
        using that(3) below [of i] below [of j] by metis
      then show ?thesis using I(3) 4 n(1) by simp
    qed
  qed
  show ?thesis
    unfolding table_invariant_nth [OF len']
    using cnt c1 c2 c3 by auto
qed

lemma lsm_add_invariant:
  assumes "table_invariant t" "allocated t" "rwlock t = Unlocked"
  shows "\<exists>t' out. lsm_add t k v = Inr (t', out) \<and>
           table_invariant t' \<and> allocated t' \<and> rwlock t' = Unlocked"
proof -
  have c: "0 \<le> sint (memtable_count t)" "sint (memtable_count t) \<le> sint (memtable_max t)"
    using assms(1) by (simp_all add: table_invariant_def Let_def)
  have len: "sint (memtable_count t) \<le> int (length (memtable t))"
    using c assms(2) by (simp add: allocated_def)
  have mx: "int (length (memtable t)) = sint (memtable_max t)"
    using assms(2) by (simp add: allocated_def)
  show ?thesis
  proof (cases "present t k")
    case True
    then obtain j where j: "j < length (memtable t)" "int j < sint (memtable_count t)"
        "occupied_with k (memtable t ! j)" "\<forall>i<j. \<not> occupied_with k (memtable t ! i)"
      using present_first by blast
    show ?thesis
      using lsm_add_update [OF assms(3) j, of v] update_preserves [OF assms(1) len j(1), of v]
        assms(2,3)
      by (simp add: allocated_def)
  next
    case False
    note no = not_present_nth [OF False len]
    show ?thesis
    proof (cases "sint (memtable_count t) < sint (memtable_max t)")
      case True
      show ?thesis
        using lsm_add_append [OF assms(3) mx c(1) True no, of v]
          append_preserves [OF assms(1,2) True False, of v] assms(2,3)
        by (simp add: allocated_def)
    next
      case False
      show ?thesis
        using lsm_add_reject [OF assms(3) len False no, of v] assms by simp
    qed
  qed
qed

text \<open>
  The line on \<open>stderr\<close> tells a rejected call from every other one: it is printed when,
  and only when, the key is new and the table is full.
\<close>

lemma lsm_add_stderr_iff:
  assumes "table_invariant t" "allocated t" "rwlock t = Unlocked"
    and "lsm_add t k v = Inr (t', out)"
  shows "Fprintf Stderr ''Memtable full, cannot add key %d (would trigger flush)\<newline>'' [k]
           \<in> set out
         \<longleftrightarrow> \<not> present t k \<and> \<not> sint (memtable_count t) < sint (memtable_max t)"
proof -
  have c: "0 \<le> sint (memtable_count t)" "sint (memtable_count t) \<le> sint (memtable_max t)"
    using assms(1) by (simp_all add: table_invariant_def Let_def)
  have mx: "int (length (memtable t)) = sint (memtable_max t)"
    using assms(2) by (simp add: allocated_def)
  have len: "sint (memtable_count t) \<le> int (length (memtable t))"
    using c mx by simp
  show ?thesis
  proof (cases "present t k")
    case True
    then obtain j where j: "j < length (memtable t)" "int j < sint (memtable_count t)"
        "occupied_with k (memtable t ! j)" "\<forall>i<j. \<not> occupied_with k (memtable t ! i)"
      using present_first by blast
    show ?thesis using lsm_add_update [OF assms(3) j, of v] assms(4) True by auto
  next
    case False
    note no = not_present_nth [OF False len]
    show ?thesis
    proof (cases "sint (memtable_count t) < sint (memtable_max t)")
      case True
      show ?thesis
        using lsm_add_append [OF assms(3) mx c(1) True no, of v] assms(4) True by auto
    next
      case full: False
      show ?thesis
        using lsm_add_reject [OF assms(3) len full no, of v] assms(4) False full by auto
    qed
  qed
qed

lemma lsm_get_unchanged:
  assumes "rwlock t \<noteq> WrLocked" "sint (memtable_count t) \<le> int (length (memtable t))"
  shows "\<exists>r. lsm_get t k out = Inr (t, r)"
  using lsm_get_lookup [OF assms] by simp

lemma reachable_invariant:
  "reachable t \<Longrightarrow> table_invariant t \<and> allocated t \<and> rwlock t = Unlocked"
proof (induction rule: reachable.induct)
  case (init cap block t0 t)
  then show ?case by (rule lsm_init_invariant)
next
  case (add t k v t' out)
  then show ?case using lsm_add_invariant [of t k v] by auto
next
  case (get t k out t' r)
  have "sint (memtable_count t) \<le> int (length (memtable t))"
    using get.IH by (simp add: table_invariant_def Let_def allocated_def)
  then show ?case using get lsm_get_unchanged [of t k out] by auto
qed

section \<open>Reading after writing\<close>

lemma lookup_spec_Some_iff:
  "lookup_spec t k = Some v \<longleftrightarrow>
     (\<exists>j<length (memtable t). int j < sint (memtable_count t) \<and>
        occupied_with k (memtable t ! j) \<and> value (memtable t ! j) = v \<and>
        (\<forall>i<j. \<not> occupied_with k (memtable t ! i)))"
  (is "?L \<longleftrightarrow> ?R")
proof
  define xs where "xs = take (nat (sint (memtable_count t))) (memtable t)"
  assume ?L
  then obtain e where e: "List.find (occupied_with k) xs = Some e" "value e = v"
    by (auto simp: lookup_spec_def xs_def)
  then obtain j where j: "j < length xs" "occupied_with k (xs ! j)" "e = xs ! j"
      "\<forall>i<j. \<not> occupied_with k (xs ! i)"
    unfolding find_Some_iff by blast
  have "j < length (memtable t)" "j < nat (sint (memtable_count t))"
    using j(1) by (simp_all add: xs_def)
  then have jn: "j < length (memtable t)" "int j < sint (memtable_count t)"
    by linarith+
  have same: "xs ! i = memtable t ! i" if "i \<le> j" for i
    using that j(1) by (simp add: xs_def)
  have "occupied_with k (memtable t ! j)" "value (memtable t ! j) = v"
    using j(2,3) e(2) same [of j] by simp_all
  moreover have "\<forall>i<j. \<not> occupied_with k (memtable t ! i)" using j(4) same by simp
  ultimately show ?R using jn by blast
next
  define xs where "xs = take (nat (sint (memtable_count t))) (memtable t)"
  assume ?R
  then obtain j where j: "j < length (memtable t)" "int j < sint (memtable_count t)"
      "occupied_with k (memtable t ! j)" "value (memtable t ! j) = v"
      "\<forall>i<j. \<not> occupied_with k (memtable t ! i)"
    by blast
  have jx: "j < length xs" using j(1,2) by (simp add: xs_def)
  have same: "xs ! i = memtable t ! i" if "i \<le> j" for i
    using that jx by (simp add: xs_def)
  have "\<exists>i<length xs. occupied_with k (xs ! i) \<and> memtable t ! j = xs ! i \<and>
          (\<forall>m<i. \<not> occupied_with k (xs ! m))"
    using jx j(3,5) same by (intro exI [of _ j]) simp
  then have "List.find (occupied_with k) xs = Some (memtable t ! j)"
    unfolding find_Some_iff .
  then show ?L using j(4) by (simp add: lookup_spec_def xs_def)
qed

lemma lookup_spec_get:
  assumes "rwlock t \<noteq> WrLocked" "lookup_spec t k = Some v"
  shows "lsm_get t k out = Inr (t, 1, v)"
  using assms lsm_get_hit [of t _ k out] unfolding lookup_spec_Some_iff by blast

lemma lsm_add_stores:
  assumes inv: "table_invariant t" and alloc: "allocated t" and lock: "rwlock t = Unlocked"
    and room: "present t k \<or> sint (memtable_count t) < sint (memtable_max t)"
  shows "\<exists>t' out. lsm_add t k v = Inr (t', out) \<and> lookup_spec t' k = Some v"
proof -
  have c: "0 \<le> sint (memtable_count t)" "sint (memtable_count t) \<le> sint (memtable_max t)"
    using inv by (simp_all add: table_invariant_def Let_def)
  have len: "sint (memtable_count t) \<le> int (length (memtable t))"
    using c alloc by (simp add: allocated_def)
  have mx: "int (length (memtable t)) = sint (memtable_max t)"
    using alloc by (simp add: allocated_def)
  show ?thesis
  proof (cases "present t k")
    case True
    then obtain j where j: "j < length (memtable t)" "int j < sint (memtable_count t)"
        "occupied_with k (memtable t ! j)" "\<forall>i<j. \<not> occupied_with k (memtable t ! i)"
      using present_first by blast
    let ?t = "t\<lparr>memtable := (memtable t)[j := (memtable t ! j)\<lparr>value := v\<rparr>]\<rparr>"
    have "lookup_spec ?t k = Some v"
      unfolding lookup_spec_Some_iff
    proof (intro exI [of _ j] conjI allI impI)
      show "j < length (memtable ?t)" using j(1) by simp
      show "int j < sint (memtable_count ?t)" using j(2) by simp
      show "occupied_with k (memtable ?t ! j)" using j(1,3) by (simp add: occupied_with_def)
      show "value (memtable ?t ! j) = v" using j(1) by simp
      show "\<not> occupied_with k (memtable ?t ! i)" if "i < j" for i
        using that j(4) by simp
    qed
    then show ?thesis using lsm_add_update [OF lock j, of v] by simp
  next
    case False
    then have lt: "sint (memtable_count t) < sint (memtable_max t)" using room by simp
    note no = not_present_nth [OF False len]
    define n where "n = nat (sint (memtable_count t))"
    have n: "int n = sint (memtable_count t)" "n < length (memtable t)"
      using c(1) lt mx by (simp_all add: n_def)
    let ?t = "t\<lparr>memtable := (memtable t)[n := (memtable t ! n)\<lparr>key := k, value := v, in_use := 1\<rparr>],
                 memtable_count := memtable_count t + 1\<rparr>"
    have "lookup_spec ?t k = Some v"
      unfolding lookup_spec_Some_iff
    proof (intro exI [of _ n] conjI allI impI)
      show "n < length (memtable ?t)" using n(2) by simp
      show "int n < sint (memtable_count ?t)" using sint_succ [OF lt] n(1) by simp
      show "occupied_with k (memtable ?t ! n)" using n(2) by (simp add: occupied_with_def)
      show "value (memtable ?t ! n) = v" using n(2) by simp
      show "\<not> occupied_with k (memtable ?t ! i)" if "i < n" for i
        using that no n(1) by simp
    qed
    then show ?thesis
      using lsm_add_append [OF lock mx c(1) lt no, of v] by (simp add: n_def)
  qed
qed

lemma lsm_add_other_key:
  assumes inv: "table_invariant t" and alloc: "allocated t" and lock: "rwlock t = Unlocked"
    and m: "lookup_spec t k = Some v" and neq: "k' \<noteq> k" and add: "lsm_add t k' v' = Inr (t', out)"
  shows "lookup_spec t' k = Some v"
proof -
  have c: "0 \<le> sint (memtable_count t)" "sint (memtable_count t) \<le> sint (memtable_max t)"
    using inv by (simp_all add: table_invariant_def Let_def)
  have len: "sint (memtable_count t) \<le> int (length (memtable t))"
    using c alloc by (simp add: allocated_def)
  have mx: "int (length (memtable t)) = sint (memtable_max t)"
    using alloc by (simp add: allocated_def)
  obtain j where j: "j < length (memtable t)" "int j < sint (memtable_count t)"
      "occupied_with k (memtable t ! j)" "value (memtable t ! j) = v"
      "\<forall>i<j. \<not> occupied_with k (memtable t ! i)"
    using m unfolding lookup_spec_Some_iff by blast
  show ?thesis
  proof (cases "present t k'")
    case True
    then obtain j' where j': "j' < length (memtable t)" "int j' < sint (memtable_count t)"
        "occupied_with k' (memtable t ! j')" "\<forall>i<j'. \<not> occupied_with k' (memtable t ! i)"
      using present_first by blast
    have ne: "j' \<noteq> j" using j(3) j'(3) neq by (auto simp: occupied_with_def)
    have t': "t' = t\<lparr>memtable := (memtable t)[j' := (memtable t ! j')\<lparr>value := v'\<rparr>]\<rparr>"
      using lsm_add_update [OF lock j', of v'] add by simp
    have occ: "occupied_with k (memtable t' ! i) = occupied_with k (memtable t ! i)" for i
      using j'(1) by (simp add: t' occupied_with_def nth_list_update)
    show ?thesis
      unfolding lookup_spec_Some_iff occ
      using j ne by (intro exI [of _ j]) (simp add: t')
  next
    case False
    note no = not_present_nth [OF False len]
    show ?thesis
    proof (cases "sint (memtable_count t) < sint (memtable_max t)")
      case True
      define n where "n = nat (sint (memtable_count t))"
      have n: "int n = sint (memtable_count t)" "n < length (memtable t)"
        using c(1) True mx by (simp_all add: n_def)
      have jn: "j < n" using j(2) n(1) by linarith
      have t': "t' = t\<lparr>memtable := (memtable t)
                         [n := (memtable t ! n)\<lparr>key := k', value := v', in_use := 1\<rparr>],
                       memtable_count := memtable_count t + 1\<rparr>"
        using lsm_add_append [OF lock mx c(1) True no, of v'] add by (simp add: n_def)
      have same: "memtable t' ! i = memtable t ! i" if "i \<le> j" for i
        using that jn by (simp add: t')
      have "int j < sint (memtable_count t')"
        using sint_succ [OF True] j(2) by (simp add: t')
      moreover have "j < length (memtable t')" using j(1) by (simp add: t')
      moreover have "\<forall>i<j. \<not> occupied_with k (memtable t' ! i)" using j(5) same by simp
      ultimately show ?thesis
        unfolding lookup_spec_Some_iff using j(3,4) same [of j] by (intro exI [of _ j]) simp
    next
      case False
      have "t' = t" using lsm_add_reject [OF lock len False no, of v'] add by simp
      then show ?thesis using m by simp
    qed
  qed
qed

lemma lsm_add_all_other_keys:
  assumes "table_invariant t" "allocated t" "rwlock t = Unlocked" "lookup_spec t k = Some v"
    and "k \<notin> fst ` set ops"
  shows "\<exists>t'. lsm_add_all t ops = Inr t' \<and> rwlock t' = Unlocked \<and> lookup_spec t' k = Some v"
  using assms
proof (induction ops arbitrary: t)
  case Nil
  then show ?case by simp
next
  case (Cons op ops)
  obtain k' v' where op: "op = (k', v')" by (cases op)
  have neq: "k' \<noteq> k" using Cons.prems(5) op by auto
  obtain t1 out where t1: "lsm_add t k' v' = Inr (t1, out)" "table_invariant t1" "allocated t1"
      "rwlock t1 = Unlocked"
    using lsm_add_invariant [OF Cons.prems(1,2,3), of k' v'] by blast
  have "lookup_spec t1 k = Some v"
    using lsm_add_other_key [OF Cons.prems(1,2,3,4) neq t1(1)] .
  moreover have "k \<notin> fst ` set ops" using Cons.prems(5) by simp
  ultimately obtain t' where "lsm_add_all t1 ops = Inr t'" "rwlock t' = Unlocked" "lookup_spec t' k = Some v"
    using Cons.IH [OF t1(2,3,4)] by blast
  then show ?case using t1(1) op by simp
qed

lemma read_after_write_aux:
  assumes "reachable t"
    and "present t k \<or> sint (memtable_count t) < sint (memtable_max t)"
    and "k \<notin> fst ` set ops"
  shows "\<exists>t1 out1 t2. lsm_add t k v = Inr (t1, out1) \<and> lsm_add_all t1 ops = Inr t2 \<and>
           lsm_get t2 k out = Inr (t2, 1, v)"
proof -
  have g: "table_invariant t" "allocated t" "rwlock t = Unlocked"
    using reachable_invariant [OF assms(1)] by simp_all
  obtain t1 out1 where t1: "lsm_add t k v = Inr (t1, out1)" "lookup_spec t1 k = Some v"
    using lsm_add_stores [OF g assms(2), of v] by blast
  have g1: "table_invariant t1" "allocated t1" "rwlock t1 = Unlocked"
    using lsm_add_invariant [OF g, of k v] t1(1) by simp_all
  obtain t2 where t2: "lsm_add_all t1 ops = Inr t2" "rwlock t2 = Unlocked" "lookup_spec t2 k = Some v"
    using lsm_add_all_other_keys [OF g1 t1(2) assms(3)] by blast
  have "lsm_get t2 k out = Inr (t2, 1, v)"
    using lookup_spec_get [of t2 k v out] t2(2,3) by simp
  then show ?thesis using t1(1) t2(1) by blast
qed

section \<open>Facts about the concrete states\<close>

lemma example_empty_init: "lsm_init lsm_zero (Some example_block) 2 = Inr example_empty"
  by (simp add: lsm_init_def lsm_init_loop.simps lsm_zero_def example_block_def
      example_empty_def)

lemma example_half_add:
  "lsm_add example_empty 1 10 =
     Inr (example_half, [Fprintf Stdout ''Writer: added key %d, value %d\<newline>'' [1, 10]])"
  by (simp add: lsm_add_def lsm_add_new_def lsm_add_loop.simps example_empty_def
      example_half_def)

lemma example_full_add:
  "lsm_add example_half 2 20 =
     Inr (example_full, [Fprintf Stdout ''Writer: added key %d, value %d\<newline>'' [2, 20]])"
  by (simp add: lsm_add_def lsm_add_new_def lsm_add_loop.simps example_half_def
      example_full_def)

lemma example_full_rejects:
  "lsm_add example_full 3 30 =
     Inr (example_full,
          [Fprintf Stderr ''Memtable full, cannot add key %d (would trigger flush)\<newline>'' [3],
           Fprintf Stdout ''Writer: added key %d, value %d\<newline>'' [3, 30]])"
  by (simp add: lsm_add_def lsm_add_new_def lsm_add_loop.simps example_full_def)

lemma reachable_example_half: "reachable example_half"
proof -
  have "reachable example_empty"
    by (rule reachable.init [OF _ _ example_empty_init]) (simp_all add: example_block_def)
  then show ?thesis by (rule reachable.add [OF _ example_half_add])
qed

lemma reachable_example_full: "reachable example_full"
  by (rule reachable.add [OF reachable_example_half example_full_add])

lemma example_full_facts:
  "rwlock example_full = Unlocked" "allocated example_full"
  "memtable_count example_full = memtable_max example_full"
  "\<not> present example_full 3" "present example_full 2"
  "sint (memtable_count example_full) \<le> int (length (memtable example_full))"
  by (simp_all add: example_full_def allocated_def present_def occupied_with_def)

lemma example_half_facts:
  "rwlock example_half = Unlocked" "allocated example_half"
  "0 \<le> sint (memtable_count example_half)"
  "sint (memtable_count example_half) < sint (memtable_max example_half)"
  "\<not> present example_half 2" "table_invariant example_half"
  by (simp_all add: example_half_def allocated_def present_def occupied_with_def
      table_invariant_def)

lemma example_full_overwrite:
  "lsm_add example_full 2 20 =
     Inr (example_full, [Fprintf Stdout ''Writer: added key %d, value %d\<newline>'' [2, 20]])"
  by (simp add: lsm_add_def lsm_add_loop.simps example_full_def)

section \<open>The lock discipline\<close>

lemma lsm_add_phases:
  "lsm_add tree k v =
     (case pthread_rwlock_wrlock (rwlock tree) of
        Inl f \<Rightarrow> Inl f
      | Inr l \<Rightarrow>
          (case lsm_add_section (tree\<lparr>rwlock := l\<rparr>) k v of
             Inl f \<Rightarrow> Inl f
           | Inr (tree2, out) \<Rightarrow>
               (case pthread_rwlock_unlock (rwlock tree2) of
                  Inl f \<Rightarrow> Inl f
                | Inr l' \<Rightarrow> Inr (tree2\<lparr>rwlock := l'\<rparr>, out))))"
  by (simp add: lsm_add_def lsm_add_section_def split: sum.splits prod.splits)













lemma lsm_add_two_steps:
  assumes "th i = Idle" and "lsm_add t k v = Inr (t', out)"
  shows "\<exists>c1. conc_step \<lparr>shared = t, threads = th\<rparr> c1 \<and> threads c1 i = InAdd k v \<and>
           conc_step c1 \<lparr>shared = t', threads = th\<rparr>"
proof -
  obtain l where l: "pthread_rwlock_wrlock (rwlock t) = Inr l"
    using assms(2) by (auto simp: lsm_add_phases split: sum.splits)
  obtain t2 where t2: "lsm_add_section (t\<lparr>rwlock := l\<rparr>) k v = Inr (t2, out)"
    using assms(2) l by (auto simp: lsm_add_phases split: sum.splits prod.splits)
  obtain l' where l': "pthread_rwlock_unlock (rwlock t2) = Inr l'" "t' = t2\<lparr>rwlock := l'\<rparr>"
    using assms(2) l t2 by (auto simp: lsm_add_phases split: sum.splits)
  let ?c = "\<lparr>shared = t, threads = th\<rparr>"
  let ?c1 = "\<lparr>shared = t\<lparr>rwlock := l\<rparr>, threads = th(i := InAdd k v)\<rparr>"
  have "conc_step ?c (?c\<lparr>shared := (shared ?c)\<lparr>rwlock := l\<rparr>,
                           threads := (threads ?c)(i := InAdd k v)\<rparr>)"
    by (rule conc_step.add_lock) (simp_all add: assms(1) l)
  then have s1: "conc_step ?c ?c1" by simp
  have "conc_step ?c1 (?c1\<lparr>shared := t2\<lparr>rwlock := l'\<rparr>, threads := (threads ?c1)(i := Idle)\<rparr>)"
    by (rule conc_step.add_unlock [where k = k and v = v and out = out])
      (simp_all add: t2 l')
  moreover have "th(i := Idle) = th" using assms(1) by auto
  ultimately have s2: "conc_step ?c1 \<lparr>shared = t', threads = th\<rparr>" by (simp add: l'(2))
  show ?thesis using s1 s2 by (intro exI [of _ ?c1]) simp
qed

lemma lsm_get_two_steps:
  assumes "th i = Idle" and "lsm_get t k out_value = Inr (t', r)"
  shows "\<exists>c1. conc_step \<lparr>shared = t, threads = th\<rparr> c1 \<and> threads c1 i = InGet k out_value \<and>
           conc_step c1 \<lparr>shared = t', threads = th\<rparr>"
proof -
  obtain l where l: "pthread_rwlock_rdlock (rwlock t) = Inr l"
    using assms(2) by (auto simp: lsm_get_def split: sum.splits)
  obtain p where p: "lsm_get_loop (t\<lparr>rwlock := l\<rparr>) k out_value 0 = Inr p"
    using assms(2) l by (auto simp: lsm_get_def split: sum.splits)
  obtain found out' where "p = (found, out')" by (cases p)
  then have f: "lsm_get_loop (t\<lparr>rwlock := l\<rparr>) k out_value 0 = Inr (found, out')"
    using p by simp
  obtain l' where l': "pthread_rwlock_unlock l = Inr l'" "t' = t\<lparr>rwlock := l'\<rparr>"
    using assms(2) l f by (auto simp: lsm_get_def split: sum.splits)
  let ?c = "\<lparr>shared = t, threads = th\<rparr>"
  let ?c1 = "\<lparr>shared = t\<lparr>rwlock := l\<rparr>, threads = th(i := InGet k out_value)\<rparr>"
  have "conc_step ?c (?c\<lparr>shared := (shared ?c)\<lparr>rwlock := l\<rparr>,
                           threads := (threads ?c)(i := InGet k out_value)\<rparr>)"
    by (rule conc_step.get_lock) (simp_all add: assms(1) l)
  then have s1: "conc_step ?c ?c1" by simp
  have "conc_step ?c1 (?c1\<lparr>shared := (shared ?c1)\<lparr>rwlock := l'\<rparr>,
                            threads := (threads ?c1)(i := Idle)\<rparr>)"
    by (rule conc_step.get_unlock [where k = k and out_value = out_value
          and found = found and out' = out'])
      (simp_all add: f l')
  moreover have "th(i := Idle) = th" using assms(1) by auto
  ultimately have s2: "conc_step ?c1 \<lparr>shared = t', threads = th\<rparr>" by (simp add: l'(2))
  show ?thesis using s1 s2 by (intro exI [of _ ?c1]) simp
qed





section \<open>Properties of the specification\<close>

subsection \<open>A full table reports the rejection\<close>

text \<open>
  C1, as the code has it. When \<open>lsm_add\<close> is called on a full table with a key that is
  not present, the call returns normally (no fault, no \<open>exit\<close>) and, before it returns,
  writes the line "Memtable full, cannot add key K (would trigger flush)" to \<open>stderr\<close>,
  followed by the line "Writer: added key K, value V" on \<open>stdout\<close> that every call
  prints. The line on \<open>stderr\<close> is the whole report: the caller gets its tree back as it
  was and no value. The line is never left out for a rejected call, and it is printed
  for no other call.
\<close>

theorem lsm_add_full_reported_on_stderr:
  "(rwlock t = Unlocked \<and> allocated t \<and> memtable_count t = memtable_max t \<and> \<not> present t k \<longrightarrow>
      lsm_add t k v =
        Inr (t, [Fprintf Stderr
                   ''Memtable full, cannot add key %d (would trigger flush)\<newline>'' [k],
                 Fprintf Stdout ''Writer: added key %d, value %d\<newline>'' [k, v]]) \<and>
      caller_receives (lsm_add t k v) = Inr t)
   \<and> (table_invariant s \<and> allocated s \<and> rwlock s = Unlocked \<and>
       lsm_add s k' v' = Inr (s', out) \<and>
       Fprintf Stderr ''Memtable full, cannot add key %d (would trigger flush)\<newline>'' [k']
         \<in> set out \<longrightarrow>
      \<not> present s k' \<and> memtable_count s = memtable_max s)"
proof (intro conjI impI)
  assume a: "rwlock t = Unlocked \<and> allocated t \<and> memtable_count t = memtable_max t \<and>
      \<not> present t k"
  then have len: "sint (memtable_count t) \<le> int (length (memtable t))"
    by (simp add: allocated_def)
  have no: "\<forall>i. int i < sint (memtable_count t) \<longrightarrow> \<not> occupied_with k (memtable t ! i)"
    using not_present_nth [OF _ len] a by blast
  have full: "\<not> sint (memtable_count t) < sint (memtable_max t)" using a by simp
  show r: "lsm_add t k v =
      Inr (t, [Fprintf Stderr
                 ''Memtable full, cannot add key %d (would trigger flush)\<newline>'' [k],
               Fprintf Stdout ''Writer: added key %d, value %d\<newline>'' [k, v]])"
    using lsm_add_reject [OF _ len full no, of v] a by blast
  show "caller_receives (lsm_add t k v) = Inr t"
    by (simp add: r caller_receives_def)
next
  assume a: "table_invariant s \<and> allocated s \<and> rwlock s = Unlocked \<and>
      lsm_add s k' v' = Inr (s', out) \<and>
      Fprintf Stderr ''Memtable full, cannot add key %d (would trigger flush)\<newline>'' [k']
        \<in> set out"
  then have r: "\<not> present s k' \<and> \<not> sint (memtable_count s) < sint (memtable_max s)"
    using lsm_add_stderr_iff [of s k' v' s' out] by blast
  then show "\<not> present s k'" by simp
  have "sint (memtable_count s) \<le> sint (memtable_max s)"
    using a by (simp add: table_invariant_def Let_def)
  then have "sint (memtable_count s) = sint (memtable_max s)" using r by simp
  then show "memtable_count s = memtable_max s" by (rule signed_word_eqI)
qed

theorem lsm_add_full_reported_on_stderr_witness:
  "(rwlock example_full = Unlocked \<and> allocated example_full \<and>
      memtable_count example_full = memtable_max example_full \<and> \<not> present example_full 3) \<and>
   (lsm_add example_full 3 30 =
      Inr (example_full,
           [Fprintf Stderr ''Memtable full, cannot add key %d (would trigger flush)\<newline>'' [3],
            Fprintf Stdout ''Writer: added key %d, value %d\<newline>'' [3, 30]]) \<and>
    caller_receives (lsm_add example_full 3 30) = Inr example_full) \<and>
   (table_invariant example_full \<and> allocated example_full \<and> rwlock example_full = Unlocked \<and>
    lsm_add example_full 3 30 =
      Inr (example_full,
           [Fprintf Stderr ''Memtable full, cannot add key %d (would trigger flush)\<newline>'' [3],
            Fprintf Stdout ''Writer: added key %d, value %d\<newline>'' [3, 30]]) \<and>
    Fprintf Stderr ''Memtable full, cannot add key %d (would trigger flush)\<newline>'' [3]
      \<in> set [Fprintf Stderr
                 ''Memtable full, cannot add key %d (would trigger flush)\<newline>'' [3],
               Fprintf Stdout ''Writer: added key %d, value %d\<newline>'' [3, 30]]) \<and>
   (\<not> present example_full 3 \<and> memtable_count example_full = memtable_max example_full)"
proof -
  note th = lsm_add_full_reported_on_stderr
    [of example_full 3 30 example_full 3 30 example_full
        "[Fprintf Stderr
            ''Memtable full, cannot add key %d (would trigger flush)\<newline>'' [3],
          Fprintf Stdout ''Writer: added key %d, value %d\<newline>'' [3, 30]]"]
  have a: "rwlock example_full = Unlocked \<and> allocated example_full \<and>
      memtable_count example_full = memtable_max example_full \<and> \<not> present example_full 3"
    using example_full_facts(1,2,3,4) by blast
  have b: "table_invariant example_full \<and> allocated example_full \<and>
      rwlock example_full = Unlocked \<and>
      lsm_add example_full 3 30 =
        Inr (example_full,
             [Fprintf Stderr
                ''Memtable full, cannot add key %d (would trigger flush)\<newline>'' [3],
              Fprintf Stdout ''Writer: added key %d, value %d\<newline>'' [3, 30]]) \<and>
      Fprintf Stderr ''Memtable full, cannot add key %d (would trigger flush)\<newline>'' [3]
        \<in> set [Fprintf Stderr
                   ''Memtable full, cannot add key %d (would trigger flush)\<newline>'' [3],
                 Fprintf Stdout ''Writer: added key %d, value %d\<newline>'' [3, 30]]"
  proof (intro conjI)
    show "table_invariant example_full"
      by (simp add: table_invariant_def example_full_def)
  qed (simp_all add: example_full_facts(1,2) example_full_rejects)
  note c1 = th [THEN conjunct1, THEN mp, OF a]
  note c2 = th [THEN conjunct2, THEN mp, OF b]
  show ?thesis using a b c1 c2 by blast
qed

text \<open>
  C1, as it is worded, fails: nothing reaches the immediate caller. On the full table of
  capacity 2 with the keys 1 and 2, the rejected \<open>lsm_add(3, 30)\<close> and the accepted
  \<open>lsm_add(2, 20)\<close> leave their caller with exactly the same thing.
\<close>

theorem lsm_add_rejection_not_returned_counterexample:
  "memtable_count example_full = memtable_max example_full \<and>
   \<not> present example_full 3 \<and> present example_full 2 \<and>
   caller_receives (lsm_add example_full 3 30) = Inr example_full \<and>
   caller_receives (lsm_add example_full 2 20) = Inr example_full"
proof -
  have "caller_receives (lsm_add example_full 3 30) = Inr example_full"
    unfolding example_full_rejects by (simp add: caller_receives_def)
  moreover have "caller_receives (lsm_add example_full 2 20) = Inr example_full"
    unfolding example_full_overwrite by (simp add: caller_receives_def)
  ultimately show ?thesis using example_full_facts(3,4,5) by blast
qed

subsection \<open>A full table is left as it was\<close>

text \<open>
  C2. When the count equals the capacity and no occupied entry among the first count
  entries has the key, \<open>lsm_add\<close> returns the table it was given: the count, the capacity
  and every entry are the same after the call as before.
\<close>

theorem lsm_add_full_unchanged:
  assumes "rwlock t = Unlocked" and "allocated t"
    and "memtable_count t = memtable_max t" and "\<not> present t k"
  shows "\<exists>out. lsm_add t k v = Inr (t, out)"
proof -
  have len: "sint (memtable_count t) \<le> int (length (memtable t))"
    using assms(2,3) by (simp add: allocated_def)
  show ?thesis
    using lsm_add_reject [OF assms(1) len _ not_present_nth [OF assms(4) len], of v] assms(3)
    by simp
qed

theorem lsm_add_full_unchanged_witness:
  "rwlock example_full = Unlocked \<and> allocated example_full \<and>
   memtable_count example_full = memtable_max example_full \<and> \<not> present example_full 3 \<and>
   (\<exists>out. lsm_add example_full 3 30 = Inr (example_full, out))"
  using lsm_add_full_unchanged [OF example_full_facts(1,2,3,4), of 30]
    example_full_facts(1,2,3,4)
  by simp

subsection \<open>The invariant\<close>

text \<open>
  C3. The table invariant (the count between 0 and the capacity, the slots below the count
  occupied, the slots from the count on not occupied, the occupied keys pairwise
  distinct) holds after \<open>lsm_init\<close> with a capacity that is not negative and a block of
  that many slots; every \<open>lsm_add\<close> on a table that satisfies it, has its slots
  allocated and its lock free returns, with a table that satisfies it again; so it holds
  in every reachable state.
\<close>

theorem table_invariant_holds:
  "(0 \<le> sint cap \<and> length block = nat (sint cap) \<longrightarrow>
      (\<exists>t. lsm_init t0 (Some block) cap = Inr t \<and> table_invariant t))
   \<and> (table_invariant t \<and> allocated t \<and> rwlock t = Unlocked \<longrightarrow>
      (\<exists>t' out. lsm_add t k v = Inr (t', out) \<and>
         table_invariant t' \<and> allocated t' \<and> rwlock t' = Unlocked))
   \<and> (reachable s \<longrightarrow> table_invariant s)"
proof (intro conjI impI)
  assume a: "0 \<le> sint cap \<and> length block = nat (sint cap)"
  then have "lsm_init t0 (Some block) cap =
      Inr (t0\<lparr>memtable := map (\<lambda>e. e\<lparr>in_use := 0\<rparr>) block, memtable_max := cap,
              memtable_count := 0, rwlock := Unlocked\<rparr>)"
    by (simp add: lsm_init_result)
  then show "\<exists>t. lsm_init t0 (Some block) cap = Inr t \<and> table_invariant t"
    using lsm_init_invariant [of cap block t0] a by simp
next
  assume "table_invariant t \<and> allocated t \<and> rwlock t = Unlocked"
  then show "\<exists>t' out. lsm_add t k v = Inr (t', out) \<and>
      table_invariant t' \<and> allocated t' \<and> rwlock t' = Unlocked"
    using lsm_add_invariant [of t k v] by simp
next
  assume "reachable s"
  then show "table_invariant s" using reachable_invariant by simp
qed

theorem table_invariant_holds_witness:
  "(0 \<le> sint (2 :: c_int) \<and> length example_block = nat (sint (2 :: c_int))) \<and>
   (\<exists>t. lsm_init lsm_zero (Some example_block) 2 = Inr t \<and> table_invariant t) \<and>
   (table_invariant example_half \<and> allocated example_half \<and> rwlock example_half = Unlocked) \<and>
   (\<exists>t' out. lsm_add example_half 2 20 = Inr (t', out) \<and>
      table_invariant t' \<and> allocated t' \<and> rwlock t' = Unlocked) \<and>
   reachable example_full \<and> table_invariant example_full"
proof -
  have a: "0 \<le> sint (2 :: c_int) \<and> length example_block = nat (sint (2 :: c_int))"
    by (simp add: example_block_def)
  have b: "table_invariant example_half \<and> allocated example_half \<and>
      rwlock example_half = Unlocked"
    using example_half_facts by simp
  note th = table_invariant_holds [of 2 example_block lsm_zero example_half 2 20 example_full]
  show ?thesis using a b reachable_example_full th by blast
qed

subsection \<open>Updating a key that is present\<close>

text \<open>
  C4. When some occupied entry among the first count entries has the key, \<open>lsm_add\<close>
  overwrites the value of the first such entry in index order and changes nothing else:
  the table it returns is the old one with that one value replaced, so the count, the
  length of the array and every other field of every entry are as before.
\<close>

theorem lsm_add_overwrites_first_match:
  assumes "rwlock t = Unlocked" and "present t k"
  shows "\<exists>j<length (memtable t). int j < sint (memtable_count t) \<and>
           occupied_with k (memtable t ! j) \<and> (\<forall>i<j. \<not> occupied_with k (memtable t ! i)) \<and>
           lsm_add t k v =
             Inr (t\<lparr>memtable := (memtable t)[j := (memtable t ! j)\<lparr>value := v\<rparr>]\<rparr>,
                  [Fprintf Stdout ''Writer: added key %d, value %d\<newline>'' [k, v]])"
proof -
  obtain j where j: "j < length (memtable t)" "int j < sint (memtable_count t)"
      "occupied_with k (memtable t ! j)" "\<forall>i<j. \<not> occupied_with k (memtable t ! i)"
    using present_first [OF assms(2)] by blast
  show ?thesis
    using lsm_add_update [OF assms(1) j, of v] j by blast
qed

theorem lsm_add_overwrites_first_match_witness:
  "rwlock example_full = Unlocked \<and> present example_full 2 \<and>
   (\<exists>j<length (memtable example_full). int j < sint (memtable_count example_full) \<and>
      occupied_with 2 (memtable example_full ! j) \<and>
      (\<forall>i<j. \<not> occupied_with 2 (memtable example_full ! i)) \<and>
      lsm_add example_full 2 21 =
        Inr (example_full\<lparr>memtable :=
               (memtable example_full)[j := (memtable example_full ! j)\<lparr>value := 21\<rparr>]\<rparr>,
             [Fprintf Stdout ''Writer: added key %d, value %d\<newline>'' [2, 21]]))"
  using lsm_add_overwrites_first_match [OF example_full_facts(1,5), of 21] example_full_facts(1,5)
  by simp

subsection \<open>Appending a new key\<close>

text \<open>
  C5. When no occupied entry among the first count entries has the key and the count
  (not negative, in an array of capacity slots) is below the capacity, \<open>lsm_add\<close> writes
  the key, the value and \<open>in_use = 1\<close> into the slot at index count, adds one to the
  count without overflow, and leaves every other slot as it was.
\<close>

theorem lsm_add_appends_new_key:
  assumes "rwlock t = Unlocked" and "allocated t"
    and "0 \<le> sint (memtable_count t)"
    and "sint (memtable_count t) < sint (memtable_max t)"
    and "\<not> present t k"
  shows "lsm_add t k v =
           Inr (t\<lparr>memtable := (memtable t)
                     [nat (sint (memtable_count t)) :=
                        (memtable t ! nat (sint (memtable_count t)))
                          \<lparr>key := k, value := v, in_use := 1\<rparr>],
                   memtable_count := memtable_count t + 1\<rparr>,
                [Fprintf Stdout ''Writer: added key %d, value %d\<newline>'' [k, v]])
         \<and> sint (memtable_count t + 1) = sint (memtable_count t) + 1"
proof -
  have mx: "int (length (memtable t)) = sint (memtable_max t)"
    using assms(2) by (simp add: allocated_def)
  have len: "sint (memtable_count t) \<le> int (length (memtable t))"
    using mx assms(4) by simp
  show ?thesis
    using lsm_add_append [OF assms(1) mx assms(3,4) not_present_nth [OF assms(5) len], of v]
      sint_succ [OF assms(4)]
    by simp
qed

theorem lsm_add_appends_new_key_witness:
  "rwlock example_half = Unlocked \<and> allocated example_half \<and>
   0 \<le> sint (memtable_count example_half) \<and>
   sint (memtable_count example_half) < sint (memtable_max example_half) \<and>
   \<not> present example_half 2 \<and>
   lsm_add example_half 2 20 =
     Inr (example_half\<lparr>memtable := (memtable example_half)
             [nat (sint (memtable_count example_half)) :=
                (memtable example_half ! nat (sint (memtable_count example_half)))
                  \<lparr>key := 2, value := 20, in_use := 1\<rparr>],
           memtable_count := memtable_count example_half + 1\<rparr>,
          [Fprintf Stdout ''Writer: added key %d, value %d\<newline>'' [2, 20]]) \<and>
   sint (memtable_count example_half + 1) = sint (memtable_count example_half) + 1"
  using lsm_add_appends_new_key [OF example_half_facts(1,2,3,4,5), of 20]
    example_half_facts(1,2,3,4,5)
  by simp

subsection \<open>The lookup\<close>

text \<open>
  C6. \<open>lsm_get\<close> scans the first count entries in index order: it returns 1 and the value
  of the first occupied entry whose key matches, or 0 (leaving \<open>*out_value\<close> alone) when
  none of them matches, which is the lookup of the specification; and the table after
  the call is the table before it.
\<close>

theorem lsm_get_refines_lookup:
  assumes "rwlock t \<noteq> WrLocked"
    and "sint (memtable_count t) \<le> int (length (memtable t))"
  shows "lsm_get t k out =
           Inr (t, case lookup_spec t k of None \<Rightarrow> (0, out) | Some v \<Rightarrow> (1, v))"
  using assms by (rule lsm_get_lookup)

theorem lsm_get_refines_lookup_witness:
  "rwlock example_full \<noteq> WrLocked \<and>
   sint (memtable_count example_full) \<le> int (length (memtable example_full)) \<and>
   lsm_get example_full 2 5 =
     Inr (example_full, case lookup_spec example_full 2 of None \<Rightarrow> (0, 5) | Some v \<Rightarrow> (1, v)) \<and>
   lookup_spec example_full 2 = Some 20"
proof -
  have h: "rwlock example_full \<noteq> WrLocked"
      "sint (memtable_count example_full) \<le> int (length (memtable example_full))"
    by (simp_all add: example_full_def)
  have "lookup_spec example_full 2 = Some 20"
    by (simp add: lookup_spec_def example_full_def occupied_with_def)
  then show ?thesis using h lsm_get_refines_lookup [OF h, of 2 5] by simp
qed

subsection \<open>A lookup that finds nothing\<close>

text \<open>
  C10. When no occupied entry among the first count entries has the key, \<open>lsm_get\<close>
  returns 0 and the caller's output location holds what it held before the call.
\<close>

theorem lsm_get_miss_keeps_out_value:
  assumes "rwlock t \<noteq> WrLocked"
    and "sint (memtable_count t) \<le> int (length (memtable t))"
    and "\<not> present t k"
  shows "lsm_get t k out_value = Inr (t, 0, out_value)"
  using lsm_get_miss [OF assms(1,2) not_present_nth [OF assms(3,2)]] .

theorem lsm_get_miss_keeps_out_value_witness:
  "rwlock example_full \<noteq> WrLocked \<and>
   sint (memtable_count example_full) \<le> int (length (memtable example_full)) \<and>
   \<not> present example_full 3 \<and>
   lsm_get example_full 3 5 = Inr (example_full, 0, 5)"
proof -
  have h: "rwlock example_full \<noteq> WrLocked"
      "sint (memtable_count example_full) \<le> int (length (memtable example_full))"
      "\<not> present example_full 3"
    using example_full_facts by simp_all
  show ?thesis using h lsm_get_miss_keeps_out_value [OF h, of 5] by simp
qed

subsection \<open>Reading after writing\<close>

text \<open>
  C7, as the code has it. In a reachable state, when the key is present or the count is
  below the capacity, \<open>lsm_add(k, v)\<close> returns, and after any further \<open>lsm_add\<close> calls
  for other keys, \<open>lsm_get(k)\<close> returns 1 with the value \<open>v\<close>.
\<close>

theorem read_after_write:
  assumes "reachable t"
    and "present t k \<or> sint (memtable_count t) < sint (memtable_max t)"
    and "k \<notin> fst ` set ops"
  shows "\<exists>t1 out1 t2. lsm_add t k v = Inr (t1, out1) \<and> lsm_add_all t1 ops = Inr t2 \<and>
           lsm_get t2 k out_value = Inr (t2, 1, v)"
  using assms by (rule read_after_write_aux)

theorem read_after_write_witness:
  "reachable example_half \<and>
   (present example_half 2 \<or>
      sint (memtable_count example_half) < sint (memtable_max example_half)) \<and>
   2 \<notin> fst ` set [(1 :: c_int, 11 :: c_int)] \<and>
   (\<exists>t1 out1 t2. lsm_add example_half 2 20 = Inr (t1, out1) \<and>
      lsm_add_all t1 [(1, 11)] = Inr t2 \<and> lsm_get t2 2 0 = Inr (t2, 1, 20))"
proof -
  have h: "present example_half 2 \<or>
      sint (memtable_count example_half) < sint (memtable_max example_half)"
    using example_half_facts(4) by simp
  have ops: "2 \<notin> fst ` set [(1 :: c_int, 11 :: c_int)]" by simp
  show ?thesis
    using reachable_example_half h ops
      read_after_write [OF reachable_example_half h ops, of 20 0]
    by blast
qed

text \<open>
  C7, as it is worded, fails on a full table: in the reachable state of capacity 2 that
  holds the keys 1 and 2, \<open>lsm_add(3, 30)\<close> returns, having changed nothing, and the
  \<open>lsm_get(3)\<close> that follows returns 0.
\<close>

theorem read_after_write_counterexample:
  "reachable example_full \<and>
   lsm_add example_full 3 30 =
     Inr (example_full,
          [Fprintf Stderr ''Memtable full, cannot add key %d (would trigger flush)\<newline>'' [3],
           Fprintf Stdout ''Writer: added key %d, value %d\<newline>'' [3, 30]]) \<and>
   lsm_get example_full 3 0 = Inr (example_full, 0, 0)"
proof -
  have "lsm_get example_full 3 0 = Inr (example_full, 0, 0)"
    by (simp add: lsm_get_def lsm_get_loop.simps example_full_def)
  then show ?thesis using reachable_example_full example_full_rejects by simp
qed

subsection \<open>The example scenario\<close>

text \<open>
  C8. From \<open>lsm_init\<close> with capacity 2, whatever the tree and the two slots held before:
  \<open>lsm_add(1, 10)\<close> gives count 1, \<open>lsm_add(2, 20)\<close> gives count 2, \<open>lsm_add(3, 30)\<close> is
  rejected (the report on \<open>stderr\<close>, the table unchanged, so the count still 2),
  \<open>lsm_get(1)\<close> returns 1 with the value 10, and \<open>lsm_get(3)\<close> returns 0.
\<close>

theorem example_scenario:
  "\<exists>s0 s1 s2 out1 out2 out3.
     lsm_init t0 (Some [e0, e1]) 2 = Inr s0 \<and>
     lsm_add s0 1 10 = Inr (s1, out1) \<and> memtable_count s1 = 1 \<and>
     lsm_add s1 2 20 = Inr (s2, out2) \<and> memtable_count s2 = 2 \<and>
     lsm_add s2 3 30 = Inr (s2, out3) \<and>
     Fprintf Stderr ''Memtable full, cannot add key %d (would trigger flush)\<newline>'' [3]
       \<in> set out3 \<and>
     lsm_get s2 1 out_value = Inr (s2, 1, 10) \<and>
     lsm_get s2 3 out_value = Inr (s2, 0, out_value)"
proof -
  let ?s0 = "t0\<lparr>memtable := [e0\<lparr>in_use := 0\<rparr>, e1\<lparr>in_use := 0\<rparr>], memtable_max := 2,
                 memtable_count := 0, rwlock := Unlocked\<rparr>"
  let ?s1 = "t0\<lparr>memtable := [e0\<lparr>key := 1, value := 10, in_use := 1\<rparr>, e1\<lparr>in_use := 0\<rparr>],
                 memtable_max := 2, memtable_count := 1, rwlock := Unlocked\<rparr>"
  let ?s2 = "t0\<lparr>memtable := [e0\<lparr>key := 1, value := 10, in_use := 1\<rparr>,
                               e1\<lparr>key := 2, value := 20, in_use := 1\<rparr>],
                 memtable_max := 2, memtable_count := 2, rwlock := Unlocked\<rparr>"
  have i: "lsm_init t0 (Some [e0, e1]) 2 = Inr ?s0"
    by (simp add: lsm_init_def lsm_init_loop.simps)
  have a1: "lsm_add ?s0 1 10 =
      Inr (?s1, [Fprintf Stdout ''Writer: added key %d, value %d\<newline>'' [1, 10]])"
    by (simp add: lsm_add_def lsm_add_new_def lsm_add_loop.simps)
  have a2: "lsm_add ?s1 2 20 =
      Inr (?s2, [Fprintf Stdout ''Writer: added key %d, value %d\<newline>'' [2, 20]])"
    by (simp add: lsm_add_def lsm_add_new_def lsm_add_loop.simps)
  have a3: "lsm_add ?s2 3 30 =
      Inr (?s2, [Fprintf Stderr
                   ''Memtable full, cannot add key %d (would trigger flush)\<newline>'' [3],
                 Fprintf Stdout ''Writer: added key %d, value %d\<newline>'' [3, 30]])"
    by (simp add: lsm_add_def lsm_add_new_def lsm_add_loop.simps)
  have g1: "lsm_get ?s2 1 out_value = Inr (?s2, 1, 10)"
    by (simp add: lsm_get_def lsm_get_loop.simps)
  have g3: "lsm_get ?s2 3 out_value = Inr (?s2, 0, out_value)"
    by (simp add: lsm_get_def lsm_get_loop.simps)
  have c: "memtable_count ?s1 = 1" "memtable_count ?s2 = 2" by simp_all
  have m: "Fprintf Stderr ''Memtable full, cannot add key %d (would trigger flush)\<newline>'' [3]
      \<in> set [Fprintf Stderr
                 ''Memtable full, cannot add key %d (would trigger flush)\<newline>'' [3],
               Fprintf Stdout ''Writer: added key %d, value %d\<newline>'' [3, 30]]"
    by simp
  show ?thesis using i a1 c(1) a2 c(2) a3 m g1 g3 by blast
qed

subsection \<open>Writers exclude, readers share\<close>



end
